theory Spec2Isabelle
  imports Main "HOL-Library.Word"
begin

section \<open>Byte slices and the underlying digest\<close>

type_synonym byte = "8 word"
type_synonym bytes = "byte list"

text \<open>
  A Go value of type \<^verbatim>\<open>[]byte\<close> as the channels carry it: the nil slice is the
  end-of-stream marker of \<^verbatim>\<open>Sum\<close>, every other slice is a value.
\<close>

datatype slice = NilSlice | Slice bytes

fun bytes_of :: "slice \<Rightarrow> bytes" where
  "bytes_of NilSlice = []"
| "bytes_of (Slice xs) = xs"

text \<open>How an operation can fail to return: a run-time panic, or a goroutine that
  waits (or loops) for ever.\<close>

datatype failure = Panic | NoReturn

text \<open>
  The caller's \<^verbatim>\<open>hash.Hash\<close> (package \<^verbatim>\<open>hash\<close> of the Go library, not of this
  repository), by its contract: \<^verbatim>\<open>Write\<close> adds bytes to the running hash,
  \<^verbatim>\<open>Reset\<close> forgets them, \<^verbatim>\<open>Sum(b)\<close> appends the hash of the bytes written since the
  last reset to \<^verbatim>\<open>b\<close> and leaves the state as it is, \<^verbatim>\<open>Size\<close> is the number of bytes
  of a hash. \<open>alg\<close> is the function the algorithm computes, \<open>written\<close> the bytes written
  since the last reset.
\<close>

record digest =
  alg :: "bytes \<Rightarrow> bytes"
  dsize :: int
  written :: bytes

definition digest_Reset :: "digest \<Rightarrow> digest" where
  "digest_Reset d = d\<lparr>written := []\<rparr>"

definition digest_Write :: "bytes \<Rightarrow> digest \<Rightarrow> digest" where
  "digest_Write p d = d\<lparr>written := written d @ p\<rparr>"

definition digest_Sum :: "slice \<Rightarrow> digest \<Rightarrow> bytes" where
  "digest_Sum b d = bytes_of b @ alg d (written d)"

definition digest_Size :: "digest \<Rightarrow> int" where
  "digest_Size d = dsize d"

section \<open>The levels of \<^verbatim>\<open>src/thex.go\<close>\<close>

definition innerPrefix :: bytes where
  "innerPrefix = [1]"

text \<open>
  One \<^verbatim>\<open>processLevel\<close> goroutine, at the receive it is waiting in, with its local
  variables: \<open>AwaitFirst\<close> is \<^verbatim>\<open>left = <-ingress\<close>; \<open>FirstLoop left\<close> the first
  \<^verbatim>\<open>for right = range ingress\<close>; \<open>SecondLoop egress\<close> the second
  \<^verbatim>\<open>for left = range ingress\<close>; \<open>AwaitRight left egress\<close> its
  \<^verbatim>\<open>right := <-ingress\<close>. \<open>egress\<close> is the goroutine reading the channel of that name,
  which exists from the \<^verbatim>\<open>break\<close> of the first loop on.
\<close>

datatype level =
    AwaitFirst
  | FirstLoop slice
  | SecondLoop level
  | AwaitRight bytes level

text \<open>Lines 124 to 130 and 140 to 146: under the lock, reset the shared digest, write
  the prefix, the left and the right value, and take the sum.\<close>

definition hash_pair :: "slice \<Rightarrow> slice \<Rightarrow> digest \<Rightarrow> bytes \<times> digest" where
  "hash_pair left right d =
     (let d1 = digest_Reset d;
          d2 = digest_Write innerPrefix d1;
          d3 = digest_Write (bytes_of left) d2;
          d4 = digest_Write (bytes_of right) d3
      in (digest_Sum NilSlice d4, d4))"

text \<open>Measures for the termination proofs: the number of levels that hold a
  value or have an egress, and the number of levels waiting for a right value.\<close>

fun depth :: "level \<Rightarrow> nat" where
  "depth AwaitFirst = 0"
| "depth (FirstLoop left) = 1"
| "depth (SecondLoop egress) = Suc (depth egress)"
| "depth (AwaitRight left egress) = Suc (depth egress)"

fun waiting :: "level \<Rightarrow> nat" where
  "waiting AwaitFirst = 0"
| "waiting (FirstLoop left) = 0"
| "waiting (SecondLoop egress) = waiting egress"
| "waiting (AwaitRight left egress) = Suc (waiting egress)"

text \<open>
  \<^verbatim>\<open>processLevel\<close> when the value received is not nil. No path sends on \<^verbatim>\<open>final\<close>.
  The sum of the digest has \<^verbatim>\<open>Size()\<close> bytes, at least one, so it is not nil.
\<close>

function processLevel_value :: "bytes \<Rightarrow> level \<Rightarrow> digest \<Rightarrow> level \<times> digest" where
  "processLevel_value v AwaitFirst d = (FirstLoop (Slice v), d)"
| "processLevel_value right (FirstLoop left) d =
     (case hash_pair left (Slice right) d of (s, d1) \<Rightarrow>
        (case processLevel_value s AwaitFirst d1 of (egress, d2) \<Rightarrow>
           (SecondLoop egress, d2)))"
| "processLevel_value left (SecondLoop egress) d = (AwaitRight left egress, d)"
| "processLevel_value right (AwaitRight left egress) d =
     (case hash_pair (Slice left) (Slice right) d of (s, d1) \<Rightarrow>
        (case processLevel_value s egress d1 of (egress', d2) \<Rightarrow>
           (SecondLoop egress', d2)))"
  by pat_completeness auto
termination
  by (relation "measure (\<lambda>(v, lv, d). depth lv)") auto

lemma processLevel_value_depth:
  "processLevel_value v lv d = (lv', d') \<Longrightarrow>
     depth lv' \<le> Suc (depth lv) \<and> (depth lv' = Suc (depth lv) \<longrightarrow> waiting lv' = 0)"
proof (induction v lv d arbitrary: lv' d' rule: processLevel_value.induct)
  case (1 v d)
  then show ?case by auto
next
  case (2 right left d)
  then show ?case by (auto split: prod.splits)
next
  case (3 left egress d)
  then show ?case by auto
next
  case (4 right left egress d)
  then show ?case by (fastforce split: prod.splits)
qed

text \<open>
  \<^verbatim>\<open>processLevel\<close> when the value received is nil. The second component is the value
  sent on \<^verbatim>\<open>final\<close>, if any.
\<close>

function processLevel_nil :: "level \<Rightarrow> digest \<Rightarrow> level \<times> slice option \<times> digest" where
  "processLevel_nil AwaitFirst d = (FirstLoop NilSlice, None, d)"
| "processLevel_nil (FirstLoop left) d = (FirstLoop left, Some left, d)"
| "processLevel_nil (SecondLoop egress) d =
     (case processLevel_nil egress d of (egress', fin, d1) \<Rightarrow> (SecondLoop egress', fin, d1))"
| "processLevel_nil (AwaitRight left egress) d =
     (case processLevel_value left egress d of (e1, d1) \<Rightarrow>
        (case processLevel_nil e1 d1 of (e2, fin, d2) \<Rightarrow> (SecondLoop e2, fin, d2)))"
  by pat_completeness auto
termination
proof (relation "measures [\<lambda>(lv, d). depth lv, \<lambda>(lv, d). waiting lv]", goal_cases)
  case 1
  show ?case by simp
next
  case (2 egress d)
  show ?case by simp
next
  case (3 left egress d e1 d1)
  then have "processLevel_value left egress d = (e1, d1)" by simp
  from processLevel_value_depth [OF this] show ?case by auto
qed

section \<open>The tree of \<^verbatim>\<open>src/thex.go\<close>\<close>

text \<open>
  The struct \<^verbatim>\<open>tree\<close>. \<open>leaves\<close> is the level-0 goroutine reading the channel of
  that name. The channel \<^verbatim>\<open>sum\<close> is unbuffered and holds nothing between two
  operations, and the lock has no state of its own, so neither is a field. Only
  \<^verbatim>\<open>len\<close> and \<^verbatim>\<open>append\<close> read \<^verbatim>\<open>overflow\<close>, so a nil and an empty overflow are
  the same list. Lengths and indices are natural numbers: they stay far below the range
  of Go's \<^verbatim>\<open>int\<close>.

  In this section a slice is the bytes it holds when it is passed. That is exact for
  the lengths, for the path each call takes and for a single step of a level, and,
  for an input that lies apart from the arrays the tree has kept, for what the
  overflow holds when \<^verbatim>\<open>Write\<close> returns. It is not exact for the bytes a kept slice
  holds later: \<^verbatim>\<open>Write\<close> keeps parts of the caller's array (line 91 the overflow
  \<^verbatim>\<open>p[i:]\<close>, line 86 a leaf \<^verbatim>\<open>p[i:j]\<close> that waits at level 0 for its partner), and
  \<^verbatim>\<open>append\<close> (lines 77 and 79) writes behind the kept overflow into the same array.
  The section on the caller's arrays below has the slices as parts of arrays; what is
  proved here about roots holds for a caller that passes every call a slice of an array
  of its own and leaves it alone.

  Every level is a sequential goroutine, and every channel has one sender and one
  receiver, so what each level receives does not depend on the scheduler; the model
  lets each send run until every level waits again.
\<close>

record tree =
  digest :: digest
  tsize :: nat
  overflow :: bytes
  leaves :: level

text \<open>\<^verbatim>\<open>t.leaves <- v\<close> for a slice that is not nil.\<close>

definition send :: "bytes \<Rightarrow> tree \<Rightarrow> tree" where
  "send v t =
     (case processLevel_value v (leaves t) (digest t) of
        (lv, d) \<Rightarrow> t\<lparr>digest := d, leaves := lv\<rparr>)"

text \<open>\<^verbatim>\<open>Reset\<close>: an empty overflow, fresh channels and a fresh level 0. The digest
  is the caller's and is left as it is.\<close>

definition Reset :: "tree \<Rightarrow> tree" where
  "Reset t = t\<lparr>overflow := [], leaves := AwaitFirst\<rparr>"

text \<open>\<^verbatim>\<open>New\<close>. \<^verbatim>\<open>make([]byte, 0, t.size-1)\<close> in \<^verbatim>\<open>Reset\<close> panics on a negative
  capacity, so a tree has a size of at least one.\<close>

definition New :: "digest \<Rightarrow> failure + tree" where
  "New d =
     (if digest_Size d - 1 < 0 then Inl Panic
      else Inr (Reset \<lparr>digest = d, tsize = nat (digest_Size d), overflow = [],
                       leaves = AwaitFirst\<rparr>))"

definition Size :: "tree \<Rightarrow> nat" where
  "Size t = tsize t"

definition BlockSize :: "tree \<Rightarrow> nat" where
  "BlockSize t = tsize t"

text \<open>The loop of \<^verbatim>\<open>Write\<close>, lines 85 to 89: \<^verbatim>\<open>p[i:j]\<close> is sent while
  \<^verbatim>\<open>j <= n\<close>. With a size of zero the loop would never end.\<close>

function write_loop :: "bytes \<Rightarrow> nat \<Rightarrow> nat \<Rightarrow> tree \<Rightarrow> failure + nat \<times> tree" where
  "write_loop p i j t =
     (if j \<le> length p then
        (if tsize t = 0 then Inl NoReturn
         else write_loop p j (j + tsize t) (send (take (j - i) (drop i p)) t))
      else Inr (i, t))"
  by pat_completeness auto
termination
  by (relation "measure (\<lambda>(p, i, j, t). Suc (length p) - j)") auto

declare write_loop.simps [simp del]

text \<open>Lines 73 to 82: the overflow of the last \<^verbatim>\<open>Write\<close> is filled up. The result
  is \<^verbatim>\<open>i\<close> and the tree. \<^verbatim>\<open>p[:i]\<close> panics on a negative \<^verbatim>\<open>i\<close>.\<close>

definition fill_overflow :: "bytes \<Rightarrow> tree \<Rightarrow> failure + nat \<times> tree" where
  "fill_overflow p t =
     (if length (overflow t) > 0 then
        (if tsize t < length (overflow t) then Inl Panic
         else
           (let i = tsize t - length (overflow t) in
            if i > length p then Inr (i, t\<lparr>overflow := overflow t @ p\<rparr>)
            else Inr (i, (send (overflow t @ take i p) t)\<lparr>overflow := []\<rparr>)))
      else Inr (0, t))"

text \<open>\<^verbatim>\<open>Write\<close>: the result is \<^verbatim>\<open>(n, err)\<close> and the tree.\<close>

definition Write :: "bytes \<Rightarrow> tree \<Rightarrow> failure + (nat \<times> string option) \<times> tree" where
  "Write p t =
     (case fill_overflow p t of
        Inl e \<Rightarrow> Inl e
      | Inr (i, t1) \<Rightarrow>
          (case write_loop p i (i + tsize t1) t1 of
             Inl e \<Rightarrow> Inl e
           | Inr (i', t2) \<Rightarrow>
               Inr ((length p, None),
                    (if i' < length p then t2\<lparr>overflow := drop i' p\<rparr> else t2))))"

text \<open>\<^verbatim>\<open>Sum\<close>: nil is sent to level 0, and the value that arrives on \<^verbatim>\<open>t.sum\<close> is
  returned. When no level sends one, \<^verbatim>\<open>Sum\<close> waits for ever.\<close>

definition Sum :: "slice \<Rightarrow> tree \<Rightarrow> failure + slice \<times> tree" where
  "Sum b t =
     (case processLevel_nil (leaves t) (digest t) of
        (lv, None, d) \<Rightarrow> Inl NoReturn
      | (lv, Some root, d) \<Rightarrow> Inr (root, t\<lparr>digest := d, leaves := lv\<rparr>))"

text \<open>Successive calls of \<^verbatim>\<open>Write\<close>, one per segment, and the same followed by
  \<^verbatim>\<open>Sum\<close>.\<close>

fun Writes :: "bytes list \<Rightarrow> tree \<Rightarrow> failure + tree" where
  "Writes [] t = Inr t"
| "Writes (p # ps) t =
     (case Write p t of Inl e \<Rightarrow> Inl e | Inr (r, t1) \<Rightarrow> Writes ps t1)"

definition Writes_Sum :: "bytes list \<Rightarrow> slice \<Rightarrow> tree \<Rightarrow> failure + slice \<times> tree" where
  "Writes_Sum ps b t = (case Writes ps t of Inl e \<Rightarrow> Inl e | Inr t1 \<Rightarrow> Sum b t1)"

text \<open>
  \<open>n\<close> runs of the same calls of \<^verbatim>\<open>Write\<close> and \<^verbatim>\<open>Sum\<close>, with a \<^verbatim>\<open>Reset\<close> after
  each: the roots returned, in order.
\<close>

fun runs :: "nat \<Rightarrow> bytes list \<Rightarrow> slice \<Rightarrow> tree \<Rightarrow> failure + slice list \<times> tree" where
  "runs 0 ps b t = Inr ([], t)"
| "runs (Suc n) ps b t =
     (case Writes_Sum ps b t of
        Inl e \<Rightarrow> Inl e
      | Inr (root, t1) \<Rightarrow>
          (case runs n ps b (Reset t1) of
             Inl e \<Rightarrow> Inl e
           | Inr (roots, t2) \<Rightarrow> Inr (root # roots, t2)))"

section \<open>The \<^verbatim>\<open>Write\<close> of \<^verbatim>\<open>src/tree/tree.go\<close>\<close>

text \<open>
  Both variants in that file (lines 59 to 78 and 189 to 208) are the same but for how
  the overflow is emptied (\<^verbatim>\<open>nil\<close> or \<^verbatim>\<open>make\<close>), and their levels are those of
  \<^verbatim>\<open>src/thex.go\<close> without the lock. Inside the \<^verbatim>\<open>if\<close>, \<^verbatim>\<open>i := ...\<close> declares a
  new \<^verbatim>\<open>i\<close>, so the loop starts at zero; and \<^verbatim>\<open>p[:i]\<close> is taken whatever the length
  of \<^verbatim>\<open>p\<close>: Go lets a slice grow up to its capacity and panics beyond. \<open>spare\<close> is
  what the array of \<^verbatim>\<open>p\<close> holds between \<^verbatim>\<open>len(p)\<close> and \<^verbatim>\<open>cap(p)\<close>.
\<close>

definition tree_go_Write :: "bytes \<Rightarrow> bytes \<Rightarrow> tree \<Rightarrow> failure + (nat \<times> string option) \<times> tree" where
  "tree_go_Write p spare t =
     (case (if length (overflow t) > 0 then
              (if tsize t < length (overflow t) then Inl Panic
               else
                 (let i = tsize t - length (overflow t) in
                  if length p + length spare < i then Inl Panic
                  else Inr ((send (overflow t @ take i (p @ spare)) t)\<lparr>overflow := []\<rparr>)))
            else Inr t) of
        Inl e \<Rightarrow> Inl e
      | Inr t1 \<Rightarrow>
          (case write_loop p 0 (0 + tsize t1) t1 of
             Inl e \<Rightarrow> Inl e
           | Inr (i', t2) \<Rightarrow>
               Inr ((length p, None),
                    (if i' < length p then t2\<lparr>overflow := drop i' p\<rparr> else t2))))"

text \<open>
  Successive calls, each with a slice that has no spare capacity (as a slice literal
  has), and the same followed by \<^verbatim>\<open>Sum\<close>.
\<close>

fun tree_go_Writes :: "bytes list \<Rightarrow> tree \<Rightarrow> failure + tree" where
  "tree_go_Writes [] t = Inr t"
| "tree_go_Writes (p # ps) t =
     (case tree_go_Write p [] t of Inl e \<Rightarrow> Inl e | Inr (r, t1) \<Rightarrow> tree_go_Writes ps t1)"

definition tree_go_Writes_Sum :: "bytes list \<Rightarrow> slice \<Rightarrow> tree \<Rightarrow> failure + slice \<times> tree" where
  "tree_go_Writes_Sum ps b t =
     (case tree_go_Writes ps t of Inl e \<Rightarrow> Inl e | Inr t1 \<Rightarrow> Sum b t1)"

section \<open>\<^verbatim>\<open>src/thex.go\<close> with the caller's arrays\<close>

text \<open>
  A Go slice is a part of an array, and \<^verbatim>\<open>Write\<close> keeps what it is given: line 91
  keeps \<^verbatim>\<open>p[i:]\<close> as the overflow, line 86 sends \<^verbatim>\<open>p[i:j]\<close>, which level 0 keeps as
  \<^verbatim>\<open>left\<close> until its partner arrives, and \<^verbatim>\<open>append\<close> (lines 77 and 79) writes behind
  the overflow into the same array while its capacity lasts. Here a slice is a
  reference: the number of its array, the offset of its first byte and its length; its
  capacity is what the array holds from the offset on. The store holds the arrays of
  the caller and of the tree alike; \<open>fresh\<close> is the number of the next new array.
\<close>

record sref =
  arr :: nat
  off :: nat
  len :: nat

datatype rslice = RNil | RSlice sref

record store =
  arrays :: "nat \<Rightarrow> bytes"
  fresh :: nat

definition contents :: "store \<Rightarrow> sref \<Rightarrow> bytes" where
  "contents w s = take (len s) (drop (off s) (arrays w (arr s)))"

definition cap :: "store \<Rightarrow> sref \<Rightarrow> nat" where
  "cap w s = length (arrays w (arr s)) - off s"

fun contents_of :: "store \<Rightarrow> rslice \<Rightarrow> bytes" where
  "contents_of w RNil = []"
| "contents_of w (RSlice s) = contents w s"

text \<open>\<^verbatim>\<open>s[i:j]\<close>.\<close>

definition reslice :: "sref \<Rightarrow> nat \<Rightarrow> nat \<Rightarrow> sref" where
  "reslice s i j = \<lparr>arr = arr s, off = off s + i, len = j - i\<rparr>"

text \<open>A slice of a new array that holds the given bytes.\<close>

definition make_slice :: "bytes \<Rightarrow> store \<Rightarrow> sref \<times> store" where
  "make_slice xs w =
     (\<lparr>arr = fresh w, off = 0, len = length xs\<rparr>,
      w\<lparr>arrays := (arrays w)(fresh w := xs), fresh := Suc (fresh w)\<rparr>)"

text \<open>
  \<^verbatim>\<open>append(s, xs...)\<close>: in place, behind the end of \<open>s\<close>, while the capacity lasts; into
  a new array otherwise. The bytes \<open>xs\<close> are read before anything is written, as Go
  copies them. The new array is as long as what it holds: Go may make it longer, and
  only the tree holds it.
\<close>

definition go_append :: "sref \<Rightarrow> bytes \<Rightarrow> store \<Rightarrow> sref \<times> store" where
  "go_append s xs w =
     (if len s + length xs \<le> cap w s then
        (s\<lparr>len := len s + length xs\<rparr>,
         w\<lparr>arrays := (arrays w)(arr s :=
              take (off s + len s) (arrays w (arr s)) @ xs
                @ drop (off s + len s + length xs) (arrays w (arr s)))\<rparr>)
      else make_slice (contents w s @ xs) w)"

text \<open>The levels, holding references.\<close>

datatype rlevel =
    RAwaitFirst
  | RFirstLoop rslice
  | RSecondLoop rlevel
  | RAwaitRight sref rlevel

text \<open>Lines 124 to 130 and 140 to 146. The digest reads the bytes the two slices hold
  when the pair is hashed, and its sum is a slice of a new array.\<close>

definition hash_pair_at :: "rslice \<Rightarrow> rslice \<Rightarrow> digest \<Rightarrow> store \<Rightarrow> sref \<times> digest \<times> store" where
  "hash_pair_at left right d w =
     (let d1 = digest_Reset d;
          d2 = digest_Write innerPrefix d1;
          d3 = digest_Write (contents_of w left) d2;
          d4 = digest_Write (contents_of w right) d3
      in (case make_slice (digest_Sum NilSlice d4) w of (s, w1) \<Rightarrow> (s, d4, w1)))"

fun rdepth :: "rlevel \<Rightarrow> nat" where
  "rdepth RAwaitFirst = 0"
| "rdepth (RFirstLoop left) = 1"
| "rdepth (RSecondLoop egress) = Suc (rdepth egress)"
| "rdepth (RAwaitRight left egress) = Suc (rdepth egress)"

fun rwaiting :: "rlevel \<Rightarrow> nat" where
  "rwaiting RAwaitFirst = 0"
| "rwaiting (RFirstLoop left) = 0"
| "rwaiting (RSecondLoop egress) = rwaiting egress"
| "rwaiting (RAwaitRight left egress) = Suc (rwaiting egress)"

text \<open>\<^verbatim>\<open>processLevel\<close> when the value received is not nil.\<close>

function processLevel_value_at :: "sref \<Rightarrow> rlevel \<Rightarrow> digest \<Rightarrow> store \<Rightarrow> rlevel \<times> digest \<times> store" where
  "processLevel_value_at v RAwaitFirst d w = (RFirstLoop (RSlice v), d, w)"
| "processLevel_value_at right (RFirstLoop left) d w =
     (case hash_pair_at left (RSlice right) d w of (s, d1, w1) \<Rightarrow>
        (case processLevel_value_at s RAwaitFirst d1 w1 of (egress, d2, w2) \<Rightarrow>
           (RSecondLoop egress, d2, w2)))"
| "processLevel_value_at left (RSecondLoop egress) d w = (RAwaitRight left egress, d, w)"
| "processLevel_value_at right (RAwaitRight left egress) d w =
     (case hash_pair_at (RSlice left) (RSlice right) d w of (s, d1, w1) \<Rightarrow>
        (case processLevel_value_at s egress d1 w1 of (egress', d2, w2) \<Rightarrow>
           (RSecondLoop egress', d2, w2)))"
  by pat_completeness auto
termination
  by (relation "measure (\<lambda>(v, lv, d, w). rdepth lv)") auto

lemma processLevel_value_at_depth:
  "processLevel_value_at v lv d w = (lv', d', w') \<Longrightarrow>
     rdepth lv' \<le> Suc (rdepth lv) \<and> (rdepth lv' = Suc (rdepth lv) \<longrightarrow> rwaiting lv' = 0)"
proof (induction v lv d w arbitrary: lv' d' w' rule: processLevel_value_at.induct)
  case (1 v d w)
  then show ?case by auto
next
  case (2 right left d w)
  then show ?case by (auto split: prod.splits)
next
  case (3 left egress d w)
  then show ?case by auto
next
  case (4 right left egress d w)
  then show ?case by (fastforce split: prod.splits)
qed

text \<open>\<^verbatim>\<open>processLevel\<close> when the value received is nil.\<close>

function processLevel_nil_at :: "rlevel \<Rightarrow> digest \<Rightarrow> store \<Rightarrow> rlevel \<times> rslice option \<times> digest \<times> store" where
  "processLevel_nil_at RAwaitFirst d w = (RFirstLoop RNil, None, d, w)"
| "processLevel_nil_at (RFirstLoop left) d w = (RFirstLoop left, Some left, d, w)"
| "processLevel_nil_at (RSecondLoop egress) d w =
     (case processLevel_nil_at egress d w of (egress', fin, d1, w1) \<Rightarrow>
        (RSecondLoop egress', fin, d1, w1))"
| "processLevel_nil_at (RAwaitRight left egress) d w =
     (case processLevel_value_at left egress d w of (e1, d1, w1) \<Rightarrow>
        (case processLevel_nil_at e1 d1 w1 of (e2, fin, d2, w2) \<Rightarrow>
           (RSecondLoop e2, fin, d2, w2)))"
  by pat_completeness auto
termination
proof (relation "measures [\<lambda>(lv, d, w). rdepth lv, \<lambda>(lv, d, w). rwaiting lv]", goal_cases)
  case 1
  show ?case by simp
next
  case (2 egress d w)
  show ?case by simp
next
  case (3 left egress d w e1 rest d1 w1)
  then have "processLevel_value_at left egress d w = (e1, d1, w1)" by simp
  from processLevel_value_at_depth [OF this] show ?case by auto
qed

text \<open>The struct \<^verbatim>\<open>tree\<close>, holding references. Every operation takes the tree and the
  store and returns both.\<close>

record rtree =
  rdigest :: digest
  rsize :: nat
  roverflow :: rslice
  rleaves :: rlevel

definition send_at :: "sref \<Rightarrow> rtree \<times> store \<Rightarrow> rtree \<times> store" where
  "send_at v tw =
     (case tw of (t, w) \<Rightarrow>
        (case processLevel_value_at v (rleaves t) (rdigest t) w of
           (lv, d, w1) \<Rightarrow> (t\<lparr>rdigest := d, rleaves := lv\<rparr>, w1)))"

text \<open>\<^verbatim>\<open>Reset\<close>. \<^verbatim>\<open>make([]byte, 0, t.size-1)\<close> is a slice of length zero of a new array
  of \<^verbatim>\<open>t.size-1\<close> bytes.\<close>

definition Reset_at :: "rtree \<times> store \<Rightarrow> rtree \<times> store" where
  "Reset_at tw =
     (case tw of (t, w) \<Rightarrow>
        (case make_slice (replicate (rsize t - 1) 0) w of
           (s, w1) \<Rightarrow> (t\<lparr>roverflow := RSlice (s\<lparr>len := 0\<rparr>), rleaves := RAwaitFirst\<rparr>, w1)))"

definition New_at :: "digest \<Rightarrow> store \<Rightarrow> failure + rtree \<times> store" where
  "New_at d w =
     (if digest_Size d - 1 < 0 then Inl Panic
      else Inr (Reset_at (\<lparr>rdigest = d, rsize = nat (digest_Size d), roverflow = RNil,
                           rleaves = RAwaitFirst\<rparr>, w)))"

text \<open>Lines 85 to 89: \<^verbatim>\<open>t.leaves <- p[i:j]\<close>, a part of the caller's array.\<close>

function write_loop_at :: "sref \<Rightarrow> nat \<Rightarrow> nat \<Rightarrow> rtree \<times> store \<Rightarrow> failure + nat \<times> rtree \<times> store" where
  "write_loop_at p i j tw =
     (if j \<le> len p then
        (if rsize (fst tw) = 0 then Inl NoReturn
         else write_loop_at p j (j + rsize (fst tw)) (send_at (reslice p i j) tw))
      else Inr (i, tw))"
  by pat_completeness auto
termination
  by (relation "measure (\<lambda>(p, i, j, tw). Suc (len p) - j)") auto

declare write_loop_at.simps [simp del]

text \<open>Lines 73 to 82: \<^verbatim>\<open>append(t.overflow, p[:]...)\<close> and
  \<^verbatim>\<open>append(t.overflow, p[:i]...)\<close>, each on the overflow as it is kept.\<close>

definition fill_overflow_at :: "sref \<Rightarrow> rtree \<times> store \<Rightarrow> failure + nat \<times> rtree \<times> store" where
  "fill_overflow_at p tw =
     (case tw of (t, w) \<Rightarrow>
        (case roverflow t of
           RNil \<Rightarrow> Inr (0, t, w)
         | RSlice ov \<Rightarrow>
             (if len ov > 0 then
                (if rsize t < len ov then Inl Panic
                 else
                   (let i = rsize t - len ov in
                    if i > len p then
                      (case go_append ov (contents w p) w of
                         (s, w1) \<Rightarrow> Inr (i, t\<lparr>roverflow := RSlice s\<rparr>, w1))
                    else
                      (case go_append ov (contents w (reslice p 0 i)) w of
                         (s, w1) \<Rightarrow>
                           (case send_at s (t, w1) of
                              (t1, w2) \<Rightarrow> Inr (i, t1\<lparr>roverflow := RNil\<rparr>, w2)))))
              else Inr (0, t, w))))"

text \<open>\<^verbatim>\<open>Write\<close>; line 91 keeps \<^verbatim>\<open>p[i:]\<close>.\<close>

definition Write_at :: "sref \<Rightarrow> rtree \<times> store \<Rightarrow> failure + (nat \<times> string option) \<times> rtree \<times> store" where
  "Write_at p tw =
     (case fill_overflow_at p tw of
        Inl e \<Rightarrow> Inl e
      | Inr (i, tw1) \<Rightarrow>
          (case write_loop_at p i (i + rsize (fst tw1)) tw1 of
             Inl e \<Rightarrow> Inl e
           | Inr (i', t2, w2) \<Rightarrow>
               Inr ((len p, None),
                    (if i' < len p then t2\<lparr>roverflow := RSlice (reslice p i' (len p))\<rparr> else t2),
                    w2)))"

definition Sum_at :: "rslice \<Rightarrow> rtree \<times> store \<Rightarrow> failure + rslice \<times> rtree \<times> store" where
  "Sum_at b tw =
     (case tw of (t, w) \<Rightarrow>
        (case processLevel_nil_at (rleaves t) (rdigest t) w of
           (lv, None, d, w1) \<Rightarrow> Inl NoReturn
         | (lv, Some root, d, w1) \<Rightarrow> Inr (root, t\<lparr>rdigest := d, rleaves := lv\<rparr>, w1)))"

text \<open>
  What one caller does, in order: a call of \<^verbatim>\<open>Write\<close>, of \<^verbatim>\<open>Sum(nil)\<close> or of
  \<^verbatim>\<open>Reset\<close>, or the assignment \<^verbatim>\<open>A[i] = x\<close> to its array number \<open>a\<close>. The result is
  the roots returned, each as the bytes it holds when \<^verbatim>\<open>Sum\<close> returns it.
\<close>

datatype action = Call_Write sref | Call_Sum | Call_Reset | Caller_store nat nat byte

fun perform :: "action list \<Rightarrow> rtree \<times> store \<Rightarrow> failure + bytes list \<times> rtree \<times> store" where
  "perform [] tw = Inr ([], tw)"
| "perform (Call_Write p # as) tw =
     (case Write_at p tw of Inl e \<Rightarrow> Inl e | Inr (r, tw1) \<Rightarrow> perform as tw1)"
| "perform (Call_Sum # as) tw =
     (case Sum_at RNil tw of
        Inl e \<Rightarrow> Inl e
      | Inr (root, tw1) \<Rightarrow>
          (case perform as tw1 of
             Inl e \<Rightarrow> Inl e
           | Inr (roots, tw2) \<Rightarrow> Inr (contents_of (snd tw1) root # roots, tw2)))"
| "perform (Call_Reset # as) tw = perform as (Reset_at tw)"
| "perform (Caller_store a i x # as) tw =
     (case tw of (t, w) \<Rightarrow>
        perform as (t, w\<lparr>arrays := (arrays w)(a := (arrays w a)[i := x])\<rparr>))"

text \<open>\<^verbatim>\<open>New\<close> on the given digest, and then what the caller does.\<close>

definition roots_of :: "digest \<Rightarrow> store \<Rightarrow> action list \<Rightarrow> failure + bytes list" where
  "roots_of d w as =
     (case New_at d w of
        Inl e \<Rightarrow> Inl e
      | Inr tw \<Rightarrow> (case perform as tw of Inl e \<Rightarrow> Inl e | Inr (roots, tw1) \<Rightarrow> Inr roots))"

text \<open>The store in which the caller holds the given arrays, numbered from 0, and the
  first \<open>n\<close> bytes of array \<open>a\<close>.\<close>

definition store_of :: "bytes list \<Rightarrow> store" where
  "store_of xss = \<lparr>arrays = (\<lambda>a. if a < length xss then xss ! a else []), fresh = length xss\<rparr>"

definition first_of :: "nat \<Rightarrow> nat \<Rightarrow> sref" where
  "first_of a n = \<lparr>arr = a, off = 0, len = n\<rparr>"

lemmas store_eval = roots_of_def New_at_def Reset_at_def Write_at_def fill_overflow_at_def
  write_loop_at.simps send_at_def Sum_at_def make_slice_def go_append_def contents_def cap_def
  reslice_def hash_pair_at_def digest_Reset_def digest_Write_def digest_Sum_def digest_Size_def
  innerPrefix_def store_of_def first_of_def Let_def

section \<open>Notions for the proofs\<close>

text \<open>
  The complete leaves of a byte sequence, and the bytes left over behind them.
\<close>

function chunks :: "nat \<Rightarrow> bytes \<Rightarrow> bytes list" where
  "chunks sz xs = (if 0 < sz \<and> sz \<le> length xs then take sz xs # chunks sz (drop sz xs) else [])"
  by pat_completeness auto
termination
  by (relation "measure (\<lambda>(sz, xs). length xs)") auto

function rest :: "nat \<Rightarrow> bytes \<Rightarrow> bytes" where
  "rest sz xs = (if 0 < sz \<and> sz \<le> length xs then rest sz (drop sz xs) else xs)"
  by pat_completeness auto
termination
  by (relation "measure (\<lambda>(sz, xs). length xs)") auto

declare chunks.simps [simp del] rest.simps [simp del]

text \<open>
  The leaves sent to level 0, one after the other.
\<close>

fun emit :: "bytes list \<Rightarrow> tree \<Rightarrow> tree" where
  "emit [] t = t"
| "emit (x # xs) t = emit xs (send x t)"

text \<open>
  A tree whose size is positive and whose overflow is shorter than a leaf.
\<close>

definition tree_ok :: "tree \<Rightarrow> bool" where
  "tree_ok t \<longleftrightarrow> 0 < tsize t \<and> length (overflow t) < tsize t"

text \<open>
  A level that answers a nil with a value on \<^verbatim>\<open>final\<close>: some level above it, or
  itself, holds a value.
\<close>

fun ready :: "level \<Rightarrow> bool" where
  "ready AwaitFirst = False"
| "ready (FirstLoop left) = (left \<noteq> NilSlice)"
| "ready (SecondLoop egress) = ready egress"
| "ready (AwaitRight left egress) = True"

text \<open>
  Two trees that differ at most in what was written to their digests.
\<close>

definition same_tree :: "tree \<Rightarrow> tree \<Rightarrow> bool" where
  "same_tree t t' \<longleftrightarrow>
     alg (digest t) = alg (digest t') \<and> tsize t = tsize t' \<and> overflow t = overflow t'
     \<and> leaves t = leaves t'"

section \<open>Example inputs\<close>

text \<open>A small digest of two bytes, the sum and the number of the bytes written, and
  the tree \<^verbatim>\<open>New\<close> makes of it.\<close>

definition example_alg :: "bytes \<Rightarrow> bytes" where
  "example_alg xs = [sum_list xs, of_nat (length xs)]"

definition example_digest :: digest where
  "example_digest = \<lparr>alg = example_alg, dsize = 2, written = []\<rparr>"

definition example_tree :: tree where
  "example_tree = \<lparr>digest = example_digest, tsize = 2, overflow = [], leaves = AwaitFirst\<rparr>"

text \<open>
  The tree after the leaf \<open>[1, 2]\<close> and the byte \<open>7\<close> were written.
\<close>

definition pending_tree :: tree where
  "pending_tree = \<lparr>digest = example_digest, tsize = 2, overflow = [7], leaves = FirstLoop (Slice [1, 2])\<rparr>"

text \<open>
  A digest of four bytes and its tree.
\<close>

definition wide_digest :: digest where
  "wide_digest = \<lparr>alg = (\<lambda>xs. replicate 4 (sum_list xs)), dsize = 4, written = []\<rparr>"

definition wide_tree :: tree where
  "wide_tree = \<lparr>digest = wide_digest, tsize = 4, overflow = [], leaves = AwaitFirst\<rparr>"

lemma New_example: "New example_digest = Inr example_tree"
  by (simp add: New_def Reset_def digest_Size_def example_digest_def example_tree_def)

lemma New_wide: "New wide_digest = Inr wide_tree"
  by (simp add: New_def Reset_def digest_Size_def wide_digest_def wide_tree_def)

lemma pending_tree_reached:
  "Writes [[1, 2, 7]] example_tree = Inr pending_tree"
  by (simp add: Write_def fill_overflow_def write_loop.simps example_tree_def pending_tree_def send_def)

section \<open>What \<^verbatim>\<open>Write\<close> computes\<close>

lemma send_tsize [simp]: "tsize (send v t) = tsize t"
  by (simp add: send_def split: prod.splits)

lemma send_overflow [simp]: "overflow (send v t) = overflow t"
  by (simp add: send_def split: prod.splits)

lemma send_overflow_update [simp]: "send v (t\<lparr>overflow := ov\<rparr>) = (send v t)\<lparr>overflow := ov\<rparr>"
  by (simp add: send_def split: prod.splits)

lemma emit_tsize [simp]: "tsize (emit xs t) = tsize t"
  by (induction xs arbitrary: t) auto

lemma emit_overflow [simp]: "overflow (emit xs t) = overflow t"
  by (induction xs arbitrary: t) auto

lemma emit_overflow_update [simp]: "emit xs (t\<lparr>overflow := ov\<rparr>) = (emit xs t)\<lparr>overflow := ov\<rparr>"
  by (induction xs arbitrary: t) auto

lemma emit_append [simp]: "emit (xs @ ys) t = emit ys (emit xs t)"
  by (induction xs arbitrary: t) auto

lemma chunks_stop: "\<not> (0 < sz \<and> sz \<le> length xs) \<Longrightarrow> chunks sz xs = []"
  by (subst chunks.simps) simp

lemma rest_stop: "\<not> (0 < sz \<and> sz \<le> length xs) \<Longrightarrow> rest sz xs = xs"
  by (subst rest.simps) auto

lemma chunks_short: "length xs < sz \<Longrightarrow> chunks sz xs = []"
  by (simp add: chunks_stop)

lemma rest_short: "length xs < sz \<Longrightarrow> rest sz xs = xs"
  by (simp add: rest_stop)

lemma chunks_step: "0 < sz \<Longrightarrow> sz \<le> length xs \<Longrightarrow> chunks sz xs = take sz xs # chunks sz (drop sz xs)"
  by (subst chunks.simps) simp

lemma rest_step: "0 < sz \<Longrightarrow> sz \<le> length xs \<Longrightarrow> rest sz xs = rest sz (drop sz xs)"
  by (subst rest.simps) simp

lemma chunks_leaf: "0 < sz \<Longrightarrow> length a = sz \<Longrightarrow> chunks sz (a @ xs) = a # chunks sz xs"
  by (simp add: chunks_step)

lemma rest_leaf: "0 < sz \<Longrightarrow> length a = sz \<Longrightarrow> rest sz (a @ xs) = rest sz xs"
  by (simp add: rest_step)

lemma length_rest: "0 < sz \<Longrightarrow> length (rest sz xs) < sz"
proof (induction sz xs rule: rest.induct)
  case (1 sz xs)
  show ?case
  proof (cases "sz \<le> length xs")
    case True
    with 1 show ?thesis by (simp add: rest_step)
  next
    case False
    then show ?thesis by (simp add: rest_short)
  qed
qed

lemma length_rest_mod: "0 < sz \<Longrightarrow> length (rest sz xs) = length xs mod sz"
proof (induction sz xs rule: rest.induct)
  case (1 sz xs)
  show ?case
  proof (cases "sz \<le> length xs")
    case True
    with 1 show ?thesis by (simp add: rest_step le_mod_geq)
  next
    case False
    then show ?thesis by (simp add: rest_short)
  qed
qed

lemma rest_drop: "0 < sz \<Longrightarrow> rest sz xs = drop (length xs - length xs mod sz) xs"
proof (induction sz xs rule: rest.induct)
  case (1 sz xs)
  show ?case
  proof (cases "sz \<le> length xs")
    case True
    have "length xs mod sz \<le> length xs - sz"
      using True by (metis le_mod_geq mod_less_eq_dividend)
    then have "sz + (length xs - sz - length xs mod sz) = length xs - length xs mod sz"
      using True by simp
    with True 1 show ?thesis by (simp add: rest_step le_mod_geq)
  next
    case False
    then show ?thesis by (simp add: rest_short)
  qed
qed

lemma chunks_append: "chunks sz (xs @ ys) = chunks sz xs @ chunks sz (rest sz xs @ ys)"
proof (induction sz xs rule: chunks.induct)
  case (1 sz xs)
  show ?case
  proof (cases "0 < sz \<and> sz \<le> length xs")
    case True
    then have "chunks sz (xs @ ys) = take sz xs # chunks sz (drop sz xs @ ys)"
      by (simp add: chunks_step)
    with True 1 show ?thesis by (simp add: chunks_step rest_step)
  next
    case False
    then have "chunks sz xs = []" "rest sz xs = xs"
      by (simp_all add: chunks_stop rest_stop)
    then show ?thesis by simp
  qed
qed

lemma rest_append: "rest sz (xs @ ys) = rest sz (rest sz xs @ ys)"
proof (induction sz xs rule: rest.induct)
  case (1 sz xs)
  show ?case
  proof (cases "0 < sz \<and> sz \<le> length xs")
    case True
    then have "rest sz (xs @ ys) = rest sz (drop sz xs @ ys)"
      by (simp add: rest_step)
    with True 1 show ?thesis by (simp add: rest_step)
  next
    case False
    then have "rest sz xs = xs"
      by (simp add: rest_stop)
    then show ?thesis by simp
  qed
qed

text \<open>
  The loop sends the complete leaves of \<^verbatim>\<open>p[i:]\<close> and stops at the start of what is
  left over.
\<close>

lemma write_loop_spec:
  "0 < sz \<Longrightarrow> tsize t = sz \<Longrightarrow> i \<le> length p \<Longrightarrow> j = i + sz \<Longrightarrow>
     \<exists>i'. write_loop p i j t = Inr (i', emit (chunks sz (drop i p)) t)
        \<and> i' \<le> length p \<and> drop i' p = rest sz (drop i p)"
proof (induction p i j t rule: write_loop.induct)
  case (1 p i j t)
  show ?case
  proof (cases "j \<le> length p")
    case True
    let ?t = "send (take (j - i) (drop i p)) t"
    from True 1(2-) have step: "write_loop p i j t = write_loop p j (j + sz) ?t"
      by (subst write_loop.simps) simp
    from True 1(2-) have "\<exists>i'. write_loop p j (j + tsize t) ?t = Inr (i', emit (chunks sz (drop j p)) ?t)
        \<and> i' \<le> length p \<and> drop i' p = rest sz (drop j p)"
      by (intro 1(1)) auto
    moreover from True 1(2-) have "chunks sz (drop i p) = take (j - i) (drop i p) # chunks sz (drop j p)"
      by (simp add: chunks_step add.commute)
    moreover from True 1(2-) have "rest sz (drop i p) = rest sz (drop j p)"
      by (simp add: rest_step add.commute)
    ultimately show ?thesis using step 1(2-) by auto
  next
    case False
    with 1(2-) show ?thesis
      by (subst write_loop.simps) (auto simp: chunks_short rest_short)
  qed
qed

text \<open>
  On a tree that is \<open>tree_ok\<close>, \<^verbatim>\<open>Write\<close> returns, sends the complete leaves of
  the overflow followed by the input, and keeps what is left over.
\<close>

lemma Write_spec:
  assumes "tree_ok t"
  shows "Write p t =
     Inr ((length p, None),
          (emit (chunks (tsize t) (overflow t @ p)) t)\<lparr>overflow := rest (tsize t) (overflow t @ p)\<rparr>)"
proof -
  let ?sz = "tsize t" and ?ov = "overflow t"
  from assms have sz: "0 < ?sz" and ov: "length ?ov < ?sz"
    by (simp_all add: tree_ok_def)
  show ?thesis
  proof (cases "?ov = []")
    case True
    from sz obtain i' where
      loop: "write_loop p 0 (0 + ?sz) t = Inr (i', emit (chunks ?sz (drop 0 p)) t)"
      and i': "i' \<le> length p" and dr: "drop i' p = rest ?sz (drop 0 p)"
      using write_loop_spec [of ?sz t 0 p "0 + ?sz"] by auto
    from i' dr have fin: "\<not> i' < length p \<Longrightarrow> rest ?sz p = []"
      by auto
    from True loop dr fin show ?thesis
      by (simp add: Write_def fill_overflow_def)
  next
    case False
    let ?i = "?sz - length ?ov"
    show ?thesis
    proof (cases "?i > length p")
      case True
      with ov have short: "length (?ov @ p) < ?sz" by simp
      from True have "\<not> ?i + ?sz \<le> length p" by linarith
      then have "write_loop p ?i (?i + ?sz) (t\<lparr>overflow := ?ov @ p\<rparr>) = Inr (?i, t\<lparr>overflow := ?ov @ p\<rparr>)"
        by (subst write_loop.simps) (simp only: if_False)
      with False True ov show ?thesis
        by (simp add: Write_def fill_overflow_def Let_def chunks_short [OF short] rest_short [OF short])
    next
      case le: False
      let ?t1 = "(send (?ov @ take ?i p) t)\<lparr>overflow := []\<rparr>"
      from le ov have tk: "take ?sz (?ov @ p) = ?ov @ take ?i p" and dp: "drop ?sz (?ov @ p) = drop ?i p"
        by simp_all
      from le ov sz have ch: "chunks ?sz (?ov @ p) = (?ov @ take ?i p) # chunks ?sz (drop ?i p)"
        and rs: "rest ?sz (?ov @ p) = rest ?sz (drop ?i p)"
        using chunks_step [of ?sz "?ov @ p"] rest_step [of ?sz "?ov @ p"] tk dp by auto
      from sz le obtain i' where
        loop: "write_loop p ?i (?i + ?sz) ?t1 = Inr (i', emit (chunks ?sz (drop ?i p)) ?t1)"
        and i': "i' \<le> length p" and dr: "drop i' p = rest ?sz (drop ?i p)"
        using write_loop_spec [of ?sz ?t1 ?i p "?i + ?sz"] by auto
      from i' dr have fin: "\<not> i' < length p \<Longrightarrow> rest ?sz (drop ?i p) = []"
        by auto
      from False le ov loop ch rs dr fin show ?thesis
        by (simp add: Write_def fill_overflow_def Let_def)
    qed
  qed
qed

lemma Write_ok: "tree_ok t \<Longrightarrow> Write p t = Inr (r, t') \<Longrightarrow> tree_ok t'"
  by (auto simp: Write_spec tree_ok_def length_rest)

lemma Writes_spec:
  "tree_ok t \<Longrightarrow> Writes ps t =
     Inr ((emit (chunks (tsize t) (overflow t @ concat ps)) t)
            \<lparr>overflow := rest (tsize t) (overflow t @ concat ps)\<rparr>)"
proof (induction ps arbitrary: t)
  case Nil
  then show ?case by (simp add: tree_ok_def chunks_short rest_short)
next
  case (Cons p ps)
  let ?t1 = "(emit (chunks (tsize t) (overflow t @ p)) t)\<lparr>overflow := rest (tsize t) (overflow t @ p)\<rparr>"
  from Cons.prems have ok1: "tree_ok ?t1"
    by (simp add: tree_ok_def length_rest)
  have "chunks (tsize t) (overflow t @ p @ concat ps)
      = chunks (tsize t) (overflow t @ p) @ chunks (tsize t) (rest (tsize t) (overflow t @ p) @ concat ps)"
    using chunks_append [of "tsize t" "overflow t @ p" "concat ps"] by simp
  moreover have "rest (tsize t) (overflow t @ p @ concat ps)
      = rest (tsize t) (rest (tsize t) (overflow t @ p) @ concat ps)"
    using rest_append [of "tsize t" "overflow t @ p" "concat ps"] by simp
  ultimately show ?case
    using Cons.prems by (simp add: Write_spec Cons.IH [OF ok1])
qed

lemma New_fresh:
  "New d = Inr t \<Longrightarrow>
     0 < tsize t \<and> overflow t = [] \<and> leaves t = AwaitFirst \<and> digest t = d"
  by (auto simp: New_def Reset_def digest_Size_def split: if_splits)

lemma New_ok: "New d = Inr t \<Longrightarrow> tree_ok t"
  by (auto simp: tree_ok_def dest: New_fresh)

lemma New_Reset: "New d = Inr t \<Longrightarrow> Reset t = t \<and> 0 < tsize t"
  by (auto simp: New_def Reset_def digest_Size_def split: if_splits)

section \<open>What the levels compute\<close>

lemma hash_pair_value:
  "hash_pair left right d =
     (alg d (innerPrefix @ bytes_of left @ bytes_of right),
      d\<lparr>written := innerPrefix @ bytes_of left @ bytes_of right\<rparr>)"
  by (simp add: hash_pair_def digest_Reset_def digest_Write_def digest_Sum_def Let_def)

lemma processLevel_value_ready: "ready (fst (processLevel_value v lv d))"
  by (induction v lv d rule: processLevel_value.induct) (auto split: prod.splits)

lemma processLevel_nil_ready:
  "ready lv \<Longrightarrow> \<exists>lv' root d'. processLevel_nil lv d = (lv', Some (Slice root), d') \<and> ready lv'"
proof (induction lv d rule: processLevel_nil.induct)
  case (1 d)
  then show ?case by simp
next
  case (2 left d)
  then show ?case by (cases left) auto
next
  case (3 egress d)
  then show ?case by auto
next
  case (4 left egress d)
  obtain e1 d1 where put: "processLevel_value left egress d = (e1, d1)"
    by (cases "processLevel_value left egress d")
  then have "ready e1"
    using processLevel_value_ready [of left egress d] by simp
  with 4 put obtain lv' root d' where "processLevel_nil e1 d1 = (lv', Some (Slice root), d')" "ready lv'"
    by (metis prod.collapse)
  with put show ?case by auto
qed

lemma send_ready: "ready (leaves (send v t))"
  using processLevel_value_ready [of v "leaves t" "digest t"]
  by (auto simp: send_def split: prod.splits)

lemma emit_ready: "xs \<noteq> [] \<or> ready (leaves t) \<Longrightarrow> ready (leaves (emit xs t))"
  by (induction xs arbitrary: t) (auto simp: send_ready)

text \<open>
  What the levels pass on and return depends on the digest only through the function
  it computes, not through what was written to it before.
\<close>

lemma processLevel_value_alg:
  "alg d = alg d' \<Longrightarrow>
     fst (processLevel_value v lv d) = fst (processLevel_value v lv d')
     \<and> alg (snd (processLevel_value v lv d)) = alg d
     \<and> alg (snd (processLevel_value v lv d')) = alg d"
proof (induction lv arbitrary: v d d')
  case AwaitFirst
  then show ?case by simp
next
  case (FirstLoop left)
  then show ?case by (simp add: hash_pair_value)
next
  case (SecondLoop egress)
  then show ?case by simp
next
  case (AwaitRight left egress)
  let ?w = "innerPrefix @ left @ v"
  have "alg (d\<lparr>written := ?w\<rparr>) = alg (d'\<lparr>written := ?w\<rparr>)"
    using AwaitRight.prems by simp
  from AwaitRight.IH [OF this, of "alg d ?w"] AwaitRight.prems
  show ?case by (auto simp: hash_pair_value split: prod.splits)
qed

lemma processLevel_nil_alg:
  "alg d = alg d' \<Longrightarrow>
     fst (processLevel_nil lv d) = fst (processLevel_nil lv d')
     \<and> fst (snd (processLevel_nil lv d)) = fst (snd (processLevel_nil lv d'))
     \<and> alg (snd (snd (processLevel_nil lv d))) = alg d
     \<and> alg (snd (snd (processLevel_nil lv d'))) = alg d"
proof (induction lv d arbitrary: d' rule: processLevel_nil.induct)
  case (1 d)
  then show ?case by simp
next
  case (2 left d)
  then show ?case by simp
next
  case (3 egress d)
  from 3(1) [OF 3(2)] show ?case by (auto split: prod.splits)
next
  case (4 left egress d)
  obtain e1 d1 where p1: "processLevel_value left egress d = (e1, d1)"
    by (cases "processLevel_value left egress d")
  obtain e1' d1' where p2: "processLevel_value left egress d' = (e1', d1')"
    by (cases "processLevel_value left egress d'")
  from processLevel_value_alg [OF 4(2), of left egress] p1 p2
  have same: "e1' = e1" "alg d1 = alg d" "alg d1' = alg d" by simp_all
  then have "alg d1 = alg d1'" by simp
  from 4(1) [OF p1 [symmetric] this] p1 p2 same
  show ?case by (auto split: prod.splits)
qed

lemma processLevel_value_keeps_alg:
  "processLevel_value v lv d = (lv', d') \<Longrightarrow> alg d' = alg d"
  using processLevel_value_alg [OF refl, where d = d and v = v and lv = lv] by simp

lemma processLevel_nil_keeps_alg:
  "processLevel_nil lv d = (lv', fin, d') \<Longrightarrow> alg d' = alg d"
  using processLevel_nil_alg [OF refl, where d = d and lv = lv] by simp

lemma send_alg [simp]: "alg (digest (send v t)) = alg (digest t)"
  by (auto simp: send_def split: prod.splits dest: processLevel_value_keeps_alg)

lemma emit_alg [simp]: "alg (digest (emit xs t)) = alg (digest t)"
  by (induction xs arbitrary: t) auto

lemma send_same: "same_tree t t' \<Longrightarrow> same_tree (send v t) (send v t')"
  using processLevel_value_alg [where d = "digest t" and d' = "digest t'" and v = v and lv = "leaves t"]
  by (auto simp: same_tree_def send_def split: prod.splits)

lemma emit_same: "same_tree t t' \<Longrightarrow> same_tree (emit xs t) (emit xs t')"
  by (induction xs arbitrary: t t') (auto simp: send_same)

lemma Reset_same:
  "alg (digest t) = alg (digest t') \<Longrightarrow> tsize t = tsize t' \<Longrightarrow> same_tree (Reset t) (Reset t')"
  by (simp add: same_tree_def Reset_def)

lemma Writes_same:
  assumes "same_tree t t'" and "tree_ok t" and "Writes ps t = Inr t1"
  shows "\<exists>t1'. Writes ps t' = Inr t1' \<and> same_tree t1 t1'"
proof -
  from assms(1,2) have ok': "tree_ok t'"
    by (simp add: same_tree_def tree_ok_def)
  from assms(1) have eq: "tsize t' = tsize t" "overflow t' = overflow t"
    by (simp_all add: same_tree_def)
  from emit_same [OF assms(1)] assms(2,3) show ?thesis
    by (auto simp: Writes_spec [OF assms(2)] Writes_spec [OF ok'] eq same_tree_def)
qed

lemma Sum_same:
  assumes "same_tree t t'" and "Sum b t = Inr (root, t1)"
  shows "\<exists>t1'. Sum b' t' = Inr (root, t1') \<and> same_tree t1 t1'"
proof -
  from assms(1) have eq: "alg (digest t) = alg (digest t')" "leaves t' = leaves t"
    "tsize t = tsize t'" "overflow t = overflow t'"
    by (simp_all add: same_tree_def)
  from processLevel_nil_alg [OF eq(1), where lv = "leaves t"] assms(2) eq show ?thesis
    by (auto simp: Sum_def same_tree_def split: prod.splits option.splits)
qed

lemma Writes_Sum_alg:
  assumes "tree_ok t" and "Writes_Sum ps b t = Inr (root, t1)"
  shows "alg (digest t1) = alg (digest t) \<and> tsize t1 = tsize t"
  using assms
  by (auto simp: Writes_Sum_def Writes_spec Sum_def split: prod.splits option.splits
      dest!: processLevel_nil_keeps_alg)

lemma rerun_step:
  assumes "0 < tsize t" and "Writes_Sum ps b (Reset t) = Inr (root, t1)"
  shows "0 < tsize t1 \<and> (\<exists>t2. Writes_Sum ps b' (Reset t1) = Inr (root, t2))"
proof -
  from assms(1) have ok: "tree_ok (Reset t)"
    by (simp add: tree_ok_def Reset_def)
  from Writes_Sum_alg [OF ok assms(2)]
  have keep: "alg (digest t1) = alg (digest t)" "tsize t1 = tsize t"
    by (simp_all add: Reset_def)
  then have same: "same_tree (Reset t) (Reset t1)"
    by (simp add: Reset_same)
  from assms(2) obtain u where w: "Writes ps (Reset t) = Inr u" and s: "Sum b u = Inr (root, t1)"
    by (auto simp: Writes_Sum_def split: sum.splits)
  from Writes_same [OF same ok w] obtain u' where
    w': "Writes ps (Reset t1) = Inr u'" and su: "same_tree u u'" by blast
  from Sum_same [OF su s] obtain t2 where "Sum b' u' = Inr (root, t2)" by blast
  with w' keep assms(1) show ?thesis
    by (auto simp: Writes_Sum_def)
qed

lemma runs_same_root:
  "0 < tsize t \<Longrightarrow> Writes_Sum ps b (Reset t) = Inr (root, t1) \<Longrightarrow>
     \<exists>t2. runs n ps b (Reset t) = Inr (replicate n root, t2)"
proof (induction n arbitrary: t t1)
  case 0
  show ?case by simp
next
  case (Suc n)
  from rerun_step [OF Suc.prems, of b] obtain t2 where
    pos: "0 < tsize t1" and again: "Writes_Sum ps b (Reset t1) = Inr (root, t2)" by blast
  from Suc.IH [OF pos again] Suc.prems(2) show ?case by auto
qed

section \<open>The claims\<close>

subsection \<open>Splitting the input over several calls\<close>

text \<open>
  In \<^verbatim>\<open>src/thex.go\<close>, with the slices taken as the bytes they hold when they are
  passed (a caller that leaves its arrays alone), on a tree that is \<open>tree_ok\<close>: the
  calls of \<^verbatim>\<open>Write\<close> for the segments of a byte sequence leave the tree as one call
  for the whole sequence does, wherever the segments end, and \<^verbatim>\<open>Sum\<close> returns the
  same after both.
\<close>

lemma thex_Write_split:
  "tree_ok t \<Longrightarrow>
     Writes ps t = Writes [concat ps] t \<and> Writes_Sum ps b t = Writes_Sum [concat ps] b t"
  by (simp add: Writes_Sum_def Writes_spec Write_spec)

text \<open>
  Claim C1. The root \<^verbatim>\<open>Sum\<close> returns does not depend on how the leaf bytes are split
  over the calls of \<^verbatim>\<open>Write\<close>. The \<^verbatim>\<open>Write\<close> of \<^verbatim>\<open>src/tree/tree.go\<close> does not keep
  to this when a call ends inside a leaf: the next call completes the leaf and then
  reads the completing bytes again. With leaves of two bytes, the calls for \<open>[1]\<close> and
  \<open>[2, 3, 4]\<close> send the leaves \<open>[1, 2]\<close> and \<open>[2, 3]\<close>, the one call for
  \<open>[1, 2, 3, 4]\<close> the leaves \<open>[1, 2]\<close> and \<open>[3, 4]\<close>, and the roots differ. The
  \<^verbatim>\<open>Write\<close> of \<^verbatim>\<open>src/thex.go\<close> gives the second root for both.
\<close>

theorem tree_go_Write_split_differs:
  "(\<exists>t'. tree_go_Writes_Sum [[1], [2, 3, 4]] NilSlice example_tree
           = Inr (Slice (example_alg [1, 1, 2, 2, 3]), t'))
   \<and> (\<exists>t'. tree_go_Writes_Sum [[1, 2, 3, 4]] NilSlice example_tree
           = Inr (Slice (example_alg [1, 1, 2, 3, 4]), t'))
   \<and> example_alg [1, 1, 2, 2, 3] \<noteq> example_alg [1, 1, 2, 3, 4]
   \<and> (\<exists>t'. Writes_Sum [[1], [2, 3, 4]] NilSlice example_tree
           = Inr (Slice (example_alg [1, 1, 2, 3, 4]), t'))"
  by (simp add: tree_go_Writes_Sum_def tree_go_Write_def Writes_Sum_def Write_def
      fill_overflow_def write_loop.simps example_tree_def send_def Sum_def hash_pair_value
      innerPrefix_def example_digest_def example_alg_def)

subsection \<open>The value of a parent\<close>

text \<open>
  Claim C2. The value a level makes of a left and a right value is the sum of the
  shared digest after a reset and the writes of the prefix byte 1, the left value and
  the right value, in that order; whatever was written to the digest before, it is
  \<open>alg d ([1] @ left @ right)\<close>, the left value being the one that arrived first. Both
  places where a level pairs two values, in the first loop and in the second, send
  exactly this value to the next level.
\<close>

theorem parent_value:
  "digest_Sum NilSlice (digest_Write right (digest_Write left (digest_Write innerPrefix (digest_Reset d))))
     = alg d ([1] @ left @ right)
   \<and> fst (hash_pair (Slice left) (Slice right) d) = alg d ([1] @ left @ right)
   \<and> processLevel_value right (FirstLoop (Slice left)) d
     = (SecondLoop (FirstLoop (Slice (alg d ([1] @ left @ right)))), d\<lparr>written := [1] @ left @ right\<rparr>)
   \<and> processLevel_value right (AwaitRight left egress) d
     = (case processLevel_value (alg d ([1] @ left @ right)) egress (d\<lparr>written := [1] @ left @ right\<rparr>) of
          (egress', d') \<Rightarrow> (SecondLoop egress', d'))"
  by (simp add: hash_pair_value innerPrefix_def digest_Reset_def digest_Write_def digest_Sum_def)

text \<open>
  Claim C2 at \<open>left = [1, 2]\<close> and \<open>right = [3, 4]\<close>, in the first loop and in the
  second, where the next level holds \<open>[5, 6]\<close>.
\<close>

theorem parent_value_witness:
  "processLevel_value [3, 4] (FirstLoop (Slice [1, 2])) example_digest
     = (SecondLoop (FirstLoop (Slice [11, 5])), example_digest\<lparr>written := [1, 1, 2, 3, 4]\<rparr>)
   \<and> processLevel_value [3, 4] (AwaitRight [1, 2] (FirstLoop (Slice [5, 6]))) example_digest
     = (SecondLoop (SecondLoop (FirstLoop (Slice [28, 5]))), example_digest\<lparr>written := [1, 5, 6, 11, 5]\<rparr>)"
  using parent_value [of "[3, 4]" "[1, 2]" example_digest "FirstLoop (Slice [5, 6])"]
  by (simp add: example_digest_def example_alg_def hash_pair_value innerPrefix_def)

subsection \<open>Three leaves and one leaf\<close>

text \<open>
  With the slices taken as the bytes they hold when they are passed (a caller that
  leaves its arrays alone): on a new tree, when the bytes written are the three
  leaves \<open>a\<close>, \<open>b\<close>, \<open>c\<close> in that order, in one call of \<^verbatim>\<open>Write\<close> or split over
  several, \<^verbatim>\<open>Sum\<close> returns \<open>Hash(prefix || Hash(prefix || a || b) || c)\<close>.
\<close>

lemma three_leaves_root_by_value:
  assumes "New d = Inr t" and "length a = tsize t" and "length b = tsize t"
    and "length c = tsize t" and "concat ps = a @ b @ c"
  shows "\<exists>t'. Writes_Sum ps bs t =
           Inr (Slice (alg d (innerPrefix @ alg d (innerPrefix @ a @ b) @ c)), t')"
proof -
  from assms(1) have fresh: "0 < tsize t" "overflow t = []" "leaves t = AwaitFirst" "digest t = d"
    and ok: "tree_ok t"
    by (auto dest: New_fresh New_ok)
  from fresh(1) assms(2-4) have "chunks (tsize t) (a @ b @ c) = [a, b, c]"
    using chunks_leaf [of "tsize t" a "b @ c"] chunks_leaf [of "tsize t" b c]
      chunks_leaf [of "tsize t" c "[]"] by (simp add: chunks_short)
  with ok assms(5) fresh show ?thesis
    by (simp add: Writes_Sum_def Writes_spec Sum_def send_def hash_pair_value)
qed

text \<open>
  Claim C3. Writing the three leaves \<open>a\<close>, \<open>b\<close>, \<open>c\<close> in that order and calling
  \<^verbatim>\<open>Sum\<close> yields \<open>Hash(prefix || Hash(prefix || a || b) || c)\<close>. \<^verbatim>\<open>src/thex.go\<close>
  does not keep to this for every caller, because \<^verbatim>\<open>Write\<close> keeps parts of the
  caller's array and appends to them in place. With leaves of four bytes, let the
  caller hold \<open>1, 2, 3\<close> in a slice of length 3 and capacity 8 and call \<^verbatim>\<open>Write\<close> on
  it twice, then on \<open>[7, 8, 9]\<close> and on \<open>[10, 11, 12]\<close>: the leaves written are
  \<open>[1, 2, 3, 1]\<close>, \<open>[2, 3, 7, 8]\<close> and \<open>[9, 10, 11, 12]\<close>. The second call completes
  the first leaf in the caller's array (line 79), where it waits at level 0; the
  third call completes the second leaf in the same array, one byte further on, and
  so overwrites the last byte of the waiting leaf with \<open>7\<close>. The root returned is
  made of the leaves \<open>[1, 2, 3, 7]\<close>, \<open>[2, 3, 7, 8]\<close>, \<open>[9, 10, 11, 12]\<close>; with the
  digest that repeats the sum of its input four times it is \<open>179\<close> four times, where
  the claim says \<open>155\<close> four times. Four slices of arrays of their own give the
  root the claim says.
\<close>

theorem thex_Write_overwrites_waiting_leaf:
  "roots_of wide_digest (store_of [[1, 2, 3, 0, 0, 0, 0, 0], [7, 8, 9], [10, 11, 12]])
     [Call_Write (first_of 0 3), Call_Write (first_of 0 3), Call_Write (first_of 1 3),
      Call_Write (first_of 2 3), Call_Sum]
     = Inr [[179, 179, 179, 179]]
   \<and> alg wide_digest ([1] @ alg wide_digest ([1] @ [1, 2, 3, 1] @ [2, 3, 7, 8]) @ [9, 10, 11, 12])
     = [155, 155, 155, 155]
   \<and> alg wide_digest ([1] @ alg wide_digest ([1] @ [1, 2, 3, 7] @ [2, 3, 7, 8]) @ [9, 10, 11, 12])
     = [179, 179, 179, 179]
   \<and> roots_of wide_digest (store_of [[1, 2, 3], [1, 2, 3], [7, 8, 9], [10, 11, 12]])
     [Call_Write (first_of 0 3), Call_Write (first_of 1 3), Call_Write (first_of 2 3),
      Call_Write (first_of 3 3), Call_Sum]
     = Inr [[155, 155, 155, 155]]"
  by (simp add: store_eval wide_digest_def) (simp add: numeral_eq_Suc)

text \<open>
  With the slices taken as the bytes they hold when they are passed (a caller that
  leaves its arrays alone): on a new tree, when the bytes written are exactly one
  leaf \<open>L\<close>, in one call of \<^verbatim>\<open>Write\<close> or split over several, \<^verbatim>\<open>Sum\<close> returns \<open>L\<close>
  itself.
\<close>

lemma single_leaf_root_by_value:
  assumes "New d = Inr t" and "length L = tsize t" and "concat ps = L"
  shows "\<exists>t'. Writes_Sum ps bs t = Inr (Slice L, t')"
proof -
  from assms(1) have fresh: "0 < tsize t" "overflow t = []" "leaves t = AwaitFirst" "digest t = d"
    and ok: "tree_ok t"
    by (auto dest: New_fresh New_ok)
  from fresh(1) assms(2) have "chunks (tsize t) L = [L]"
    using chunks_leaf [of "tsize t" L "[]"] by (simp add: chunks_short)
  with ok assms(3) fresh show ?thesis
    by (simp add: Writes_Sum_def Writes_spec Sum_def send_def)
qed

text \<open>
  Claim C4. When exactly one leaf \<open>L\<close> is written, \<^verbatim>\<open>Sum\<close> returns \<open>L\<close> unchanged.
  \<^verbatim>\<open>src/thex.go\<close> does not keep to this for a caller that uses its buffer again,
  because line 91 keeps \<^verbatim>\<open>p[i:]\<close> of the caller's array as the overflow. With leaves
  of two bytes, let the caller write the leaf \<open>[1, 2]\<close> in two calls: \<^verbatim>\<open>Write(buf)\<close>
  with \<open>buf = [1]\<close>, then \<open>buf[0] = 9\<close>, then \<^verbatim>\<open>Write\<close> on \<open>[2]\<close>. The overflow is
  the caller's \<open>buf\<close>, so the leaf completed by the second call is \<open>[9, 2]\<close>, and
  that is what \<^verbatim>\<open>Sum\<close> returns. Without the assignment it returns \<open>[1, 2]\<close>.
\<close>

theorem thex_Write_keeps_callers_array:
  "roots_of example_digest (store_of [[1], [2]])
     [Call_Write (first_of 0 1), Caller_store 0 0 9, Call_Write (first_of 1 1), Call_Sum]
     = Inr [[9, 2]]
   \<and> roots_of example_digest (store_of [[1], [2]])
     [Call_Write (first_of 0 1), Call_Write (first_of 1 1), Call_Sum]
     = Inr [[1, 2]]"
  by (simp add: store_eval example_digest_def example_alg_def)

subsection \<open>An input too short to complete the pending leaf\<close>

text \<open>
  In \<^verbatim>\<open>src/thex.go\<close>: with an overflow pending and an input shorter than what the
  overflow lacks, \<^verbatim>\<open>Write\<close> appends the whole input to the overflow, sends nothing
  to level 0 and returns.
\<close>

lemma thex_Write_short:
  assumes "overflow t \<noteq> []" and "length (overflow t) \<le> tsize t"
    and "length p < tsize t - length (overflow t)"
  shows "Write p t = Inr ((length p, None), t\<lparr>overflow := overflow t @ p\<rparr>)"
proof -
  from assms have ok: "tree_ok t" unfolding tree_ok_def by linarith
  from assms have short: "length (overflow t @ p) < tsize t" by simp
  show ?thesis
    by (simp add: Write_spec [OF ok] chunks_short [OF short] rest_short [OF short])
qed

text \<open>
  Claim C5. With an overflow pending and an input shorter than what the overflow
  lacks, the input is appended to the overflow and nothing is sent to level 0. The
  \<^verbatim>\<open>Write\<close> of \<^verbatim>\<open>src/tree/tree.go\<close> has no branch for this case. With leaves of four
  bytes, the byte \<open>1\<close> pending and the input \<open>[2]\<close> in an array that holds \<open>9, 9\<close>
  behind it, it sends the leaf \<open>[1, 2, 9, 9]\<close> and keeps \<open>[2]\<close> as the overflow; the
  \<^verbatim>\<open>Write\<close> of \<^verbatim>\<open>src/thex.go\<close> sends nothing and keeps \<open>[1, 2]\<close>.
\<close>

theorem tree_go_Write_short_input:
  "tree_go_Write [2] [9, 9] (wide_tree\<lparr>overflow := [1]\<rparr>)
     = Inr ((1, None), wide_tree\<lparr>overflow := [2], leaves := FirstLoop (Slice [1, 2, 9, 9])\<rparr>)
   \<and> Write [2] (wide_tree\<lparr>overflow := [1]\<rparr>)
     = Inr ((1, None), wide_tree\<lparr>overflow := [1, 2]\<rparr>)"
  by (simp add: tree_go_Write_def Write_def fill_overflow_def write_loop.simps wide_tree_def
      send_def)

subsection \<open>When \<^verbatim>\<open>Sum\<close> returns\<close>

text \<open>
  Claim C6, as amended. On a tree as \<^verbatim>\<open>New\<close> or \<^verbatim>\<open>Reset\<close> leaves it, \<^verbatim>\<open>Sum\<close>
  returns a value when the bytes written hold at least one complete leaf; when they
  hold none, \<^verbatim>\<open>Sum\<close> never returns: level 0 takes the nil as its first value and
  waits for a second one.
\<close>

theorem Sum_returns:
  assumes "New d = Inr t \<or> (\<exists>u. 0 < tsize u \<and> t = Reset u)"
  shows "(tsize t \<le> length (concat ps) \<longrightarrow> (\<exists>root t'. Writes_Sum ps b t = Inr (Slice root, t')))
       \<and> (length (concat ps) < tsize t \<longrightarrow> Writes_Sum ps b t = Inl NoReturn)"
proof (intro conjI impI)
  from assms have fresh: "0 < tsize t" "overflow t = []" "leaves t = AwaitFirst"
    by (auto simp: Reset_def dest: New_fresh)
  then have ok: "tree_ok t"
    by (simp add: tree_ok_def)
  {
    assume "tsize t \<le> length (concat ps)"
    with fresh have "chunks (tsize t) (concat ps) \<noteq> []"
      by (simp add: chunks_step)
    then have "ready (leaves (emit (chunks (tsize t) (concat ps)) t))"
      by (simp add: emit_ready)
    then obtain lv' root d' where
      "processLevel_nil (leaves (emit (chunks (tsize t) (concat ps)) t))
         (digest (emit (chunks (tsize t) (concat ps)) t)) = (lv', Some (Slice root), d')"
      using processLevel_nil_ready by blast
    with ok fresh show "\<exists>root t'. Writes_Sum ps b t = Inr (Slice root, t')"
      by (simp add: Writes_Sum_def Writes_spec Sum_def)
  }
  {
    assume "length (concat ps) < tsize t"
    then have "chunks (tsize t) (concat ps) = []"
      by (simp add: chunks_short)
    with ok fresh show "Writes_Sum ps b t = Inl NoReturn"
      by (simp add: Writes_Sum_def Writes_spec Sum_def)
  }
qed

text \<open>
  Claim C6, as amended, on the new example tree at two leaves written in two calls
  and at a single byte, and after a \<^verbatim>\<open>Reset\<close> at one leaf and at no call at all.
\<close>

theorem Sum_returns_witness:
  "New example_digest = Inr example_tree
   \<and> (\<exists>root t'. Writes_Sum [[1, 2, 3], [4]] NilSlice example_tree = Inr (Slice root, t'))
   \<and> Writes_Sum [[1]] NilSlice example_tree = Inl NoReturn
   \<and> 0 < tsize pending_tree
   \<and> (\<exists>root t'. Writes_Sum [[5, 6]] NilSlice (Reset pending_tree) = Inr (Slice root, t'))
   \<and> Writes_Sum [] NilSlice (Reset pending_tree) = Inl NoReturn"
proof -
  have pos: "0 < tsize pending_tree"
    by (simp add: pending_tree_def)
  then have r: "New example_digest = Inr (Reset pending_tree)
      \<or> (\<exists>u. 0 < tsize u \<and> Reset pending_tree = Reset u)"
    by blast
  from Sum_returns [of example_digest example_tree "[[1, 2, 3], [4]]" NilSlice]
    Sum_returns [of example_digest example_tree "[[1]]" NilSlice]
  have a: "(\<exists>root t'. Writes_Sum [[1, 2, 3], [4]] NilSlice example_tree = Inr (Slice root, t'))
      \<and> Writes_Sum [[1]] NilSlice example_tree = Inl NoReturn"
    by (simp add: New_example) (simp add: example_tree_def)
  from Sum_returns [OF r, of "[[5, 6]]" NilSlice] Sum_returns [OF r, of "[]" NilSlice]
  have b: "(\<exists>root t'. Writes_Sum [[5, 6]] NilSlice (Reset pending_tree) = Inr (Slice root, t'))
      \<and> Writes_Sum [] NilSlice (Reset pending_tree) = Inl NoReturn"
    by (simp add: Reset_def pending_tree_def)
  from a b pos show ?thesis
    by (simp add: New_example)
qed

text \<open>
  Claim C6 as it was stated fails on a new tree with nothing written: \<^verbatim>\<open>Sum\<close> does
  not return.
\<close>

theorem Sum_no_leaf_counterexample:
  "New example_digest = Inr example_tree
   \<and> Writes_Sum [] NilSlice example_tree = Inl NoReturn
   \<and> Sum NilSlice example_tree = Inl NoReturn"
  by (simp add: New_example Writes_Sum_def Sum_def example_tree_def)

subsection \<open>What \<^verbatim>\<open>Write\<close> returns\<close>

text \<open>
  In \<^verbatim>\<open>src/thex.go\<close>, on a tree that is \<open>tree_ok\<close> (every tree \<^verbatim>\<open>New\<close> returns is,
  and \<^verbatim>\<open>Write\<close>, \<^verbatim>\<open>Sum\<close> and \<^verbatim>\<open>Reset\<close> keep it so), \<^verbatim>\<open>Write\<close> returns the length
  of its input and no error.
\<close>

lemma thex_Write_returns: "tree_ok t \<Longrightarrow> \<exists>t'. Write p t = Inr ((length p, None), t')"
  by (simp add: Write_spec)

text \<open>
  Claim C7. \<^verbatim>\<open>Write(p)\<close> returns \<^verbatim>\<open>len(p)\<close> and a nil error for every \<open>p\<close>. The
  \<^verbatim>\<open>Write\<close> of \<^verbatim>\<open>src/tree/tree.go\<close> does not return when an overflow is pending and
  the input, spare capacity included, is shorter than what the overflow lacks: with
  leaves of four bytes, after the call for \<open>[1]\<close> the call for \<open>[2]\<close> panics in
  \<^verbatim>\<open>p[:i]\<close>. In \<^verbatim>\<open>src/thex.go\<close> both calls return.
\<close>

theorem tree_go_Write_panics:
  "tree_go_Writes [[1], [2]] wide_tree = Inl Panic
   \<and> tree_go_Write [2] [] (wide_tree\<lparr>overflow := [1]\<rparr>) = Inl Panic
   \<and> Writes [[1], [2]] wide_tree = Inr (wide_tree\<lparr>overflow := [1, 2]\<rparr>)"
  by (simp add: tree_go_Write_def Write_def fill_overflow_def write_loop.simps wide_tree_def
      send_def)

subsection \<open>The same calls again after \<^verbatim>\<open>Reset\<close>\<close>

text \<open>
  With the slices taken as the bytes they hold when they are passed (a caller that
  leaves its arrays alone): on a new tree, when the calls of \<^verbatim>\<open>Write\<close> followed by
  \<^verbatim>\<open>Sum\<close> return a root, then any number of runs of the same calls, with a
  \<^verbatim>\<open>Reset\<close> after each, return that same root every time.
\<close>

lemma runs_deterministic_by_value:
  assumes "New d = Inr t" and "Writes_Sum ps b t = Inr (root, t1)"
  shows "\<exists>t2. runs n ps b t = Inr (replicate n root, t2)"
  using runs_same_root [of t ps b root t1 n] New_Reset [OF assms(1)] assms(2) by simp

text \<open>
  Claim C8. Two runs of \<^verbatim>\<open>Write\<close> calls with the same leaf bytes, each followed by
  \<^verbatim>\<open>Sum\<close> and with a \<^verbatim>\<open>Reset\<close> between them, return the same root. In
  \<^verbatim>\<open>src/thex.go\<close> the root also depends on where the caller holds the bytes, because
  line 86 sends \<^verbatim>\<open>p[i:j]\<close> of the caller's array and level 0 keeps it until its
  partner arrives. With leaves of two bytes, the first run writes \<open>[1, 2]\<close> and
  \<open>[3, 4]\<close> from two slices of their own and \<^verbatim>\<open>Sum\<close> returns \<open>Hash(1, 1, 2, 3, 4)\<close>,
  which is \<open>[11, 5]\<close> for the example digest. After \<^verbatim>\<open>Reset\<close> the second run writes
  the same two leaves through one buffer: \<^verbatim>\<open>Write(buf)\<close> with \<open>buf = [1, 2]\<close>, then
  \<open>buf\<close> is filled with \<open>3, 4\<close>, then \<^verbatim>\<open>Write(buf)\<close>. The leaf waiting at level 0 is
  \<open>buf\<close> itself, both children are hashed as \<open>[3, 4]\<close>, and \<^verbatim>\<open>Sum\<close> returns
  \<open>Hash(1, 3, 4, 3, 4)\<close>, which is \<open>[15, 5]\<close>.
\<close>

theorem thex_runs_differ_with_buffer:
  "roots_of example_digest (store_of [[1, 2], [3, 4], [1, 2]])
     [Call_Write (first_of 0 2), Call_Write (first_of 1 2), Call_Sum,
      Call_Reset,
      Call_Write (first_of 2 2), Caller_store 2 0 3, Caller_store 2 1 4,
      Call_Write (first_of 2 2), Call_Sum]
     = Inr [[11, 5], [15, 5]]
   \<and> example_alg [1, 1, 2, 3, 4] = [11, 5]
   \<and> example_alg [1, 3, 4, 3, 4] = [15, 5]"
  by (simp add: store_eval example_digest_def example_alg_def)

subsection \<open>The overflow\<close>

text \<open>
  Claim C9. After \<^verbatim>\<open>New\<close>, \<^verbatim>\<open>Reset\<close>, \<^verbatim>\<open>Write\<close> and \<^verbatim>\<open>Sum\<close> the overflow is
  shorter than a leaf. It is empty after \<^verbatim>\<open>New\<close> and \<^verbatim>\<open>Reset\<close>. When the pending
  overflow is completed and sent (lines 79 and 80), it is empty at once; and after a
  \<^verbatim>\<open>Write\<close> that sent a leaf, the overflow holds none of the bytes that were pending:
  it is the end of the input behind the last complete leaf, empty when the input ends
  with a leaf. \<^verbatim>\<open>Sum\<close> leaves the overflow as it is.
\<close>

theorem overflow_invariant:
  "(New d = Inr t \<longrightarrow> tree_ok t \<and> overflow t = [])
   \<and> (0 < tsize t \<longrightarrow> tree_ok (Reset t) \<and> overflow (Reset t) = [])
   \<and> (tree_ok t \<longrightarrow> (\<exists>t'. Write p t = Inr ((length p, None), t') \<and> tree_ok t'
          \<and> length (overflow t') = (length (overflow t) + length p) mod tsize t
          \<and> (tsize t \<le> length (overflow t) + length p \<longrightarrow>
                overflow t' = drop (length p - length (overflow t')) p)))
   \<and> (tree_ok t \<longrightarrow> overflow t \<noteq> [] \<longrightarrow> tsize t \<le> length (overflow t) + length p \<longrightarrow>
        (\<exists>i t1. fill_overflow p t = Inr (i, t1) \<and> overflow t1 = []
           \<and> leaves t1 = leaves (send (overflow t @ take i p) t)))
   \<and> (tree_ok t \<longrightarrow> Sum b t = Inr (root, t') \<longrightarrow> tree_ok t' \<and> overflow t' = overflow t)"
proof (intro conjI impI)
  assume "New d = Inr t"
  then show "tree_ok t" "overflow t = []"
    by (auto dest: New_ok New_fresh)
next
  assume "0 < tsize t"
  then show "tree_ok (Reset t)" "overflow (Reset t) = []"
    by (simp_all add: tree_ok_def Reset_def)
next
  assume ok: "tree_ok t"
  then have sz: "0 < tsize t" and ov: "length (overflow t) < tsize t"
    by (simp_all add: tree_ok_def)
  let ?t' = "(emit (chunks (tsize t) (overflow t @ p)) t)\<lparr>overflow := rest (tsize t) (overflow t @ p)\<rparr>"
  have "tree_ok ?t'"
    using sz by (simp add: tree_ok_def length_rest)
  moreover have len: "length (overflow ?t') = (length (overflow t) + length p) mod tsize t"
    using sz by (simp add: length_rest_mod)
  moreover have "overflow ?t' = drop (length p - length (overflow ?t')) p"
    if "tsize t \<le> length (overflow t) + length p"
  proof -
    have "(length (overflow t) + length p) mod tsize t \<le> length (overflow t) + length p - tsize t"
      using that by (metis le_mod_geq mod_less_eq_dividend)
    with ov that have "length (overflow t) + length p - (length (overflow t) + length p) mod tsize t
        = length (overflow t) + (length p - (length (overflow t) + length p) mod tsize t)"
      by linarith
    with sz show ?thesis
      by (simp add: rest_drop length_rest_mod)
  qed
  ultimately show "\<exists>t'. Write p t = Inr ((length p, None), t') \<and> tree_ok t'
          \<and> length (overflow t') = (length (overflow t) + length p) mod tsize t
          \<and> (tsize t \<le> length (overflow t) + length p \<longrightarrow>
                overflow t' = drop (length p - length (overflow t')) p)"
    using Write_spec [OF ok, of p] by blast
next
  assume "tree_ok t" and "overflow t \<noteq> []" and "tsize t \<le> length (overflow t) + length p"
  then show "\<exists>i t1. fill_overflow p t = Inr (i, t1) \<and> overflow t1 = []
           \<and> leaves t1 = leaves (send (overflow t @ take i p) t)"
    by (auto simp: fill_overflow_def tree_ok_def Let_def)
next
  assume "tree_ok t" and "Sum b t = Inr (root, t')"
  then show "tree_ok t'" "overflow t' = overflow t"
    by (auto simp: Sum_def tree_ok_def split: prod.splits option.splits)
qed

text \<open>
  Claim C9 at the new example tree, and at the tree with the byte \<open>7\<close> pending for
  the input \<open>[8, 9]\<close>.
\<close>

theorem overflow_invariant_witness:
  "New example_digest = Inr example_tree \<and> tree_ok example_tree \<and> overflow example_tree = []
   \<and> tree_ok pending_tree \<and> overflow pending_tree = [7]
   \<and> tree_ok (Reset pending_tree) \<and> overflow (Reset pending_tree) = []
   \<and> (\<exists>t'. Write [8, 9] pending_tree = Inr ((2, None), t') \<and> tree_ok t'
         \<and> length (overflow t') = 1 \<and> overflow t' = drop (2 - length (overflow t')) [8, 9])
   \<and> (\<exists>i t1. fill_overflow [8, 9] pending_tree = Inr (i, t1) \<and> overflow t1 = []
         \<and> leaves t1 = leaves (send ([7] @ take i [8, 9]) pending_tree))
   \<and> Sum NilSlice pending_tree = Inr (Slice [1, 2], pending_tree)"
proof -
  have ok: "tree_ok pending_tree" and s: "Sum NilSlice pending_tree = Inr (Slice [1, 2], pending_tree)"
    by (simp_all add: tree_ok_def pending_tree_def Sum_def)
  from overflow_invariant [of example_digest example_tree "[]" NilSlice "Slice []" example_tree]
  have a: "tree_ok example_tree \<and> overflow example_tree = []"
    by (simp add: New_example)
  from overflow_invariant [of example_digest pending_tree "[8, 9]" NilSlice "Slice [1, 2]" pending_tree]
    ok s
  have b: "tree_ok (Reset pending_tree) \<and> overflow (Reset pending_tree) = []
     \<and> (\<exists>t'. Write [8, 9] pending_tree = Inr ((2, None), t') \<and> tree_ok t'
         \<and> length (overflow t') = 1 \<and> overflow t' = drop (2 - length (overflow t')) [8, 9])
     \<and> (\<exists>i t1. fill_overflow [8, 9] pending_tree = Inr (i, t1) \<and> overflow t1 = []
         \<and> leaves t1 = leaves (send ([7] @ take i [8, 9]) pending_tree))"
    by (simp add: tree_ok_def pending_tree_def numeral_2_eq_2 mod_Suc)
  from a b ok s show ?thesis
    by (simp add: New_example pending_tree_def)
qed

subsection \<open>The argument of \<^verbatim>\<open>Sum\<close>\<close>

text \<open>
  Claim C10. \<^verbatim>\<open>Sum(b)\<close> is \<^verbatim>\<open>Sum(nil)\<close> for every \<open>b\<close>: the argument is not read,
  and what is returned is the root alone, which for a \<open>b\<close> that is not empty differs
  from \<open>b\<close> followed by the root.
\<close>

theorem Sum_ignores_argument:
  "Sum b t = Sum NilSlice t \<and>
   (\<forall>r t'. Sum b t = Inr (r, t') \<longrightarrow> bytes_of b \<noteq> [] \<longrightarrow> bytes_of r \<noteq> bytes_of b @ bytes_of r)"
  by (simp add: Sum_def)

text \<open>
  Claim C10 at \<open>b = [9]\<close> on a tree holding the one leaf \<open>[7, 8]\<close>.
\<close>

theorem Sum_ignores_argument_witness:
  "Sum (Slice [9]) (example_tree\<lparr>leaves := FirstLoop (Slice [7, 8])\<rparr>)
     = Sum NilSlice (example_tree\<lparr>leaves := FirstLoop (Slice [7, 8])\<rparr>)
   \<and> Sum (Slice [9]) (example_tree\<lparr>leaves := FirstLoop (Slice [7, 8])\<rparr>)
     = Inr (Slice [7, 8], example_tree\<lparr>leaves := FirstLoop (Slice [7, 8])\<rparr>)
   \<and> [7, 8] \<noteq> [9] @ [7, 8 :: byte]"
  using Sum_ignores_argument [of "Slice [9]" "example_tree\<lparr>leaves := FirstLoop (Slice [7, 8])\<rparr>"]
  by (simp add: Sum_def example_tree_def)

end
